theory Spec2Isabelle
  imports Main "HOL-Library.Sublist"
begin

section \<open>Log watcher with alerts: the tailing and alert-dispatch engine\<close>

text \<open>
  The development embeds \<^verbatim>\<open>src/log_watcher_with_alerts/main.py\<close>: the class
  \<^verbatim>\<open>Tailer\<close> (the incremental reader, the event handlers and the queue worker) and the
  function \<^verbatim>\<open>send_alert\<close>. The library calls the program makes (text-mode file
  reading, \<^verbatim>\<open>re.Pattern.search\<close>, \<^verbatim>\<open>requests.post\<close>) are modelled next to the
  code that calls them.

  A Python \<^verbatim>\<open>str\<close> is a list of Unicode code points, the content of a file is a list
  of bytes (\<^typ>\<open>string\<close>, one \<^typ>\<open>char\<close> per byte).
\<close>

type_synonym pystr = "nat list"

definition str :: "string \<Rightarrow> pystr" where
  "str s = map of_char s"

subsection \<open>Compiled patterns and \<^verbatim>\<open>Pattern.search\<close>\<close>

text \<open>
  A compiled pattern is the syntax tree of a regular expression, over this part of
  Python's \<^verbatim>\<open>re\<close> syntax: literals, \<^verbatim>\<open>.\<close>, the sets \<^verbatim>\<open>[...]\<close> and \<^verbatim>\<open>[^...]\<close>, the
  anchors \<^verbatim>\<open>^\<close> and \<^verbatim>\<open>$\<close>, \<^verbatim>\<open>|\<close>, concatenation, \<^verbatim>\<open>*\<close>, and the scoped inline flag
  \<^verbatim>\<open>(?ai:...)\<close>, matching ASCII letters without regard to case. \<open>Fail\<close> matches nothing; it is
  the result of a derivative that cannot continue.

  \<^verbatim>\<open>main\<close> compiles the pattern with \<^verbatim>\<open>re.compile(args.pattern)\<close>, no flags: matching
  starts case-sensitive, \<^verbatim>\<open>.\<close> is every character except the newline (no DOTALL), \<^verbatim>\<open>^\<close>
  is the start of the string and \<^verbatim>\<open>$\<close> its end or the place before a last newline (no
  MULTILINE).
\<close>

datatype regex =
    Fail
  | Empty
  | Lit nat
  | AnyChar
  | OneOf "nat list"
  | NoneOf "nat list"
  | Bol
  | Eol
  | Branch regex regex
  | Concat regex regex
  | Repeat regex
  | IgnoreCase regex

text \<open>The literal pattern for a string, and \<^verbatim>\<open>ERROR|CRITICAL\<close>, the default.\<close>

fun literal :: "pystr \<Rightarrow> regex" where
  "literal [] = Empty"
| "literal (c # cs) = Concat (Lit c) (literal cs)"

definition default_pattern :: regex where
  "default_pattern = Branch (literal (str ''ERROR'')) (literal (str ''CRITICAL''))"

text \<open>
  Comparing characters: as they are, or, under the flag, after lowering the ASCII capitals.
\<close>

definition ascii_lower :: "nat \<Rightarrow> nat" where
  "ascii_lower c = (if 65 \<le> c \<and> c \<le> 90 then c + 32 else c)"

definition same_char :: "bool \<Rightarrow> nat \<Rightarrow> nat \<Rightarrow> bool" where
  "same_char ci c d = (if ci then ascii_lower c = ascii_lower d else c = d)"

definition in_chars :: "bool \<Rightarrow> nat list \<Rightarrow> nat \<Rightarrow> bool" where
  "in_chars ci cs d =
     (if ci then ascii_lower d \<in> set (map ascii_lower cs) else d \<in> set cs)"

text \<open>Where \<^verbatim>\<open>$\<close> holds: nothing follows, or only one newline.\<close>

definition at_end :: "pystr \<Rightarrow> bool" where
  "at_end post \<longleftrightarrow> post = [] \<or> post = [10]"

text \<open>
  What it means for a pattern to match a part of a string: the reference semantics.
  \<open>matches ci pre r w post\<close> says that \<open>r\<close> matches \<open>w\<close> where the string is
  \<open>pre @ w @ post\<close>; \<open>ci\<close> is the case-insensitive flag at that place of the pattern.
\<close>

inductive matches :: "bool \<Rightarrow> pystr \<Rightarrow> regex \<Rightarrow> pystr \<Rightarrow> pystr \<Rightarrow> bool" where
  m_empty: "matches ci pre Empty [] post"
| m_lit: "same_char ci c d \<Longrightarrow> matches ci pre (Lit c) [d] post"
| m_any: "d \<noteq> 10 \<Longrightarrow> matches ci pre AnyChar [d] post"
| m_one_of: "in_chars ci cs d \<Longrightarrow> matches ci pre (OneOf cs) [d] post"
| m_none_of: "\<not> in_chars ci cs d \<Longrightarrow> matches ci pre (NoneOf cs) [d] post"
| m_bol: "matches ci [] Bol [] post"
| m_eol: "at_end post \<Longrightarrow> matches ci pre Eol [] post"
| m_branch_l: "matches ci pre r u post \<Longrightarrow> matches ci pre (Branch r s) u post"
| m_branch_r: "matches ci pre s u post \<Longrightarrow> matches ci pre (Branch r s) u post"
| m_concat:
    "matches ci pre r u (v @ post) \<Longrightarrow> matches ci (pre @ u) s v post \<Longrightarrow>
     matches ci pre (Concat r s) (u @ v) post"
| m_repeat_nil: "matches ci pre (Repeat r) [] post"
| m_repeat_more:
    "matches ci pre r u (v @ post) \<Longrightarrow> matches ci (pre @ u) (Repeat r) v post \<Longrightarrow>
     matches ci pre (Repeat r) (u @ v) post"
| m_ignore_case: "matches True pre r u post \<Longrightarrow> matches ci pre (IgnoreCase r) u post"

text \<open>
  The matcher that runs: derivatives of the pattern, character by character. \<open>bol\<close> and
  \<open>eol\<close> say whether \<^verbatim>\<open>^\<close> and \<^verbatim>\<open>$\<close> hold at the current position.
\<close>

fun nullable :: "bool \<Rightarrow> bool \<Rightarrow> regex \<Rightarrow> bool" where
  "nullable bol eol Fail = False"
| "nullable bol eol Empty = True"
| "nullable bol eol (Lit c) = False"
| "nullable bol eol AnyChar = False"
| "nullable bol eol (OneOf cs) = False"
| "nullable bol eol (NoneOf cs) = False"
| "nullable bol eol Bol = bol"
| "nullable bol eol Eol = eol"
| "nullable bol eol (Branch r s) = (nullable bol eol r \<or> nullable bol eol s)"
| "nullable bol eol (Concat r s) = (nullable bol eol r \<and> nullable bol eol s)"
| "nullable bol eol (Repeat r) = True"
| "nullable bol eol (IgnoreCase r) = nullable bol eol r"

fun deriv :: "bool \<Rightarrow> bool \<Rightarrow> bool \<Rightarrow> nat \<Rightarrow> regex \<Rightarrow> regex" where
  "deriv ci bol eol d Fail = Fail"
| "deriv ci bol eol d Empty = Fail"
| "deriv ci bol eol d (Lit c) = (if same_char ci c d then Empty else Fail)"
| "deriv ci bol eol d AnyChar = (if d = 10 then Fail else Empty)"
| "deriv ci bol eol d (OneOf cs) = (if in_chars ci cs d then Empty else Fail)"
| "deriv ci bol eol d (NoneOf cs) = (if in_chars ci cs d then Fail else Empty)"
| "deriv ci bol eol d Bol = Fail"
| "deriv ci bol eol d Eol = Fail"
| "deriv ci bol eol d (Branch r s) = Branch (deriv ci bol eol d r) (deriv ci bol eol d s)"
| "deriv ci bol eol d (Concat r s) =
     (if nullable bol eol r
      then Branch (Concat (deriv ci bol eol d r) s) (deriv ci bol eol d s)
      else Concat (deriv ci bol eol d r) s)"
| "deriv ci bol eol d (Repeat r) = Concat (deriv ci bol eol d r) (Repeat r)"
| "deriv ci bol eol d (IgnoreCase r) = IgnoreCase (deriv True bol eol d r)"

text \<open>The pattern matches some prefix of the rest of the string.\<close>

fun match_here :: "bool \<Rightarrow> regex \<Rightarrow> pystr \<Rightarrow> bool" where
  "match_here bol r [] = nullable bol True r"
| "match_here bol r (d # ds) =
     (nullable bol (d = 10 \<and> ds = []) r
      \<or> match_here False (deriv False bol (d = 10 \<and> ds = []) d r) ds)"

text \<open>
  \<^verbatim>\<open>Pattern.search\<close>: scan the string for a position where the pattern matches.
\<close>

fun search_from :: "bool \<Rightarrow> regex \<Rightarrow> pystr \<Rightarrow> bool" where
  "search_from bol r [] = match_here bol r []"
| "search_from bol r (d # ds) = (match_here bol r (d # ds) \<or> search_from False r ds)"

definition search :: "regex \<Rightarrow> pystr \<Rightarrow> bool" where
  "search r line = search_from True r line"

subsection \<open>Reading text: UTF-8 with \<^verbatim>\<open>errors="ignore"\<close>, universal newlines\<close>

definition is_cont :: "nat \<Rightarrow> bool" where
  "is_cont b \<longleftrightarrow> 0x80 \<le> b \<and> b \<le> 0xBF"

definition second3_ok :: "nat \<Rightarrow> nat \<Rightarrow> bool" where
  "second3_ok b c =
     (if b = 0xE0 then 0xA0 \<le> c \<and> c \<le> 0xBF
      else if b = 0xED then 0x80 \<le> c \<and> c \<le> 0x9F
      else is_cont c)"

definition second4_ok :: "nat \<Rightarrow> nat \<Rightarrow> bool" where
  "second4_ok b c =
     (if b = 0xF0 then 0x90 \<le> c \<and> c \<le> 0xBF
      else if b = 0xF4 then 0x80 \<le> c \<and> c \<le> 0x8F
      else is_cont c)"

text \<open>
  One well-formed UTF-8 sequence at the head of the bytes: its code point and the bytes
  after it. \<open>None\<close> when the head is not a well-formed sequence (an invalid start byte,
  an invalid continuation byte, an overlong form, a surrogate, a value above U+10FFFF, or
  the end of the data inside a sequence).
\<close>

fun utf8_take :: "nat list \<Rightarrow> (nat \<times> nat list) option" where
  "utf8_take [] = None"
| "utf8_take (b # bs) =
     (if b < 0x80 then Some (b, bs)
      else if 0xC2 \<le> b \<and> b \<le> 0xDF then
        (case bs of
           c1 # r \<Rightarrow>
             if is_cont c1 then Some ((b - 0xC0) * 0x40 + (c1 - 0x80), r) else None
         | _ \<Rightarrow> None)
      else if 0xE0 \<le> b \<and> b \<le> 0xEF then
        (case bs of
           c1 # c2 # r \<Rightarrow>
             if second3_ok b c1 \<and> is_cont c2
             then Some ((b - 0xE0) * 0x1000 + (c1 - 0x80) * 0x40 + (c2 - 0x80), r)
             else None
         | _ \<Rightarrow> None)
      else if 0xF0 \<le> b \<and> b \<le> 0xF4 then
        (case bs of
           c1 # c2 # c3 # r \<Rightarrow>
             if second4_ok b c1 \<and> is_cont c2 \<and> is_cont c3
             then Some ((b - 0xF0) * 0x40000 + (c1 - 0x80) * 0x1000
                          + (c2 - 0x80) * 0x40 + (c3 - 0x80), r)
             else None
         | _ \<Rightarrow> None)
      else None)"

text \<open>
  The decoder with \<^verbatim>\<open>errors="ignore"\<close>: a well-formed sequence gives its code point;
  anything else is skipped. Skipping one byte and scanning on gives the same text as
  skipping the whole ill-formed prefix at once, since the bytes of that prefix after the
  first are continuation bytes, which start no sequence.
\<close>

function utf8_decode_ignore :: "nat list \<Rightarrow> pystr" where
  "utf8_decode_ignore [] = []"
| "utf8_decode_ignore (b # bs) =
     (case utf8_take (b # bs) of
        Some (cp, rest) \<Rightarrow> cp # utf8_decode_ignore rest
      | None \<Rightarrow> utf8_decode_ignore bs)"
  by pat_completeness auto
termination
  by (relation "measure length") (auto split: if_splits list.splits)


text \<open>
  Universal newlines (\<^verbatim>\<open>newline=None\<close>, the default of \<^verbatim>\<open>open\<close>): \<^verbatim>\<open>\r\n\<close> and a
  lone \<^verbatim>\<open>\r\<close> are both read as \<^verbatim>\<open>\n\<close>.
\<close>

fun newline_translate :: "pystr \<Rightarrow> pystr" where
  "newline_translate [] = []"
| "newline_translate [c] = (if c = 13 then [10] else [c])"
| "newline_translate (c # d # cs) =
     (if c = 13 \<and> d = 10 then 10 # newline_translate cs
      else if c = 13 then 10 # newline_translate (d # cs)
      else c # newline_translate (d # cs))"

text \<open>
  Iterating over the handle: each line ends with its \<^verbatim>\<open>\n\<close>; what follows the last
  \<^verbatim>\<open>\n\<close>, when not empty, is a line too. \<open>cur\<close> is the line being collected.
\<close>

fun readlines :: "pystr \<Rightarrow> pystr \<Rightarrow> pystr list" where
  "readlines cur [] = (if cur = [] then [] else [cur])"
| "readlines cur (c # cs) =
     (if c = 10 then (cur @ [c]) # readlines [] cs else readlines (cur @ [c]) cs)"

text \<open>\<^verbatim>\<open>line.rstrip("\n")\<close>: every trailing newline goes.\<close>

definition rstrip_nl :: "pystr \<Rightarrow> pystr" where
  "rstrip_nl s = rev (dropWhile (\<lambda>c. c = 10) (rev s))"

text \<open>
  The text the handle yields after \<^verbatim>\<open>seek(pos)\<close>, and \<^verbatim>\<open>tell()\<close> once the iteration
  has reached the end of the file: the byte position of the underlying buffer. A seek
  beyond the end reads nothing and stays where it is.
\<close>

definition text_from :: "string \<Rightarrow> nat \<Rightarrow> pystr" where
  "text_from content pos =
     newline_translate (utf8_decode_ignore (map of_char (drop pos content)))"

definition tell_at_eof :: "string \<Rightarrow> nat \<Rightarrow> nat" where
  "tell_at_eof content pos = max pos (length content)"

subsection \<open>\<^verbatim>\<open>AlertConfig\<close> and \<^verbatim>\<open>Tailer\<close>\<close>

datatype exc =
    FileNotFoundError
  | SystemExit
  | ConnectionError
  | Timeout
  | HTTPError nat
  | OtherException

text \<open>\<^verbatim>\<open>except requests.RequestException\<close> catches these and nothing else.\<close>

fun is_RequestException :: "exc \<Rightarrow> bool" where
  "is_RequestException ConnectionError = True"
| "is_RequestException Timeout = True"
| "is_RequestException (HTTPError status) = True"
| "is_RequestException e = False"

record AlertConfig =
  pattern :: regex
  webhook :: "pystr option"
  slack_token :: "pystr option"
  slack_channel :: "pystr option"

text \<open>
  \<^verbatim>\<open>pathlib.Path\<close> on a POSIX system. A path is its anchor and its parts: the string is
  split at \<^verbatim>\<open>/\<close>, empty parts and \<^verbatim>\<open>.\<close> parts are dropped, \<^verbatim>\<open>..\<close> stays. Exactly two
  leading slashes are an anchor of their own. Two paths are equal when anchor and parts
  are, so \<^verbatim>\<open>Path('./app.log') == Path('app.log')\<close>.
\<close>

datatype anchor = Relative | Root | DoubleRoot

type_synonym pypath = "anchor \<times> string list"

fun split_sep :: "string \<Rightarrow> string \<Rightarrow> string list" where
  "split_sep cur [] = [cur]"
| "split_sep cur (c # cs) =
     (if c = CHR ''/'' then cur # split_sep [] cs else split_sep (cur @ [c]) cs)"

definition path_anchor :: "string \<Rightarrow> anchor" where
  "path_anchor s =
     (if take 1 s \<noteq> ''/'' then Relative
      else if take 1 (drop 1 s) \<noteq> ''/'' \<or> take 1 (drop 2 s) = ''/'' then Root
      else DoubleRoot)"

definition Path :: "string \<Rightarrow> pypath" where
  "Path s =
     (path_anchor s, filter (\<lambda>part. part \<noteq> [] \<and> part \<noteq> ''.'') (split_sep [] s))"

record Tailer =
  path :: pypath
  config :: AlertConfig
  position :: nat
  queue :: "pystr list"

text \<open>The files: the bytes of each path that exists.\<close>

type_synonym filesystem = "pypath \<Rightarrow> string option"

text \<open>An exception leaves the method with the state the object has at that moment.\<close>

type_synonym 'a raised = "(exc \<times> 'a) + 'a"

definition Tailer_init :: "pypath \<Rightarrow> AlertConfig \<Rightarrow> Tailer" where
  "Tailer_init p cfg = \<lparr>path = p, config = cfg, position = 0, queue = []\<rparr>"

text \<open>The body of the \<^verbatim>\<open>for line in handle\<close> loop, over the lines still to come.\<close>

fun scan_lines :: "regex \<Rightarrow> pystr list \<Rightarrow> pystr list \<Rightarrow> pystr list" where
  "scan_lines pat q [] = q"
| "scan_lines pat q (line # rest) =
     (let line' = rstrip_nl line
      in scan_lines pat (if search pat line' then q @ [line'] else q) rest)"

definition read_new_lines :: "filesystem \<Rightarrow> Tailer \<Rightarrow> Tailer raised" where
  "read_new_lines fs t =
     (case fs (path t) of
        None \<Rightarrow> Inl (FileNotFoundError, t)
      | Some content \<Rightarrow>
          Inr (t\<lparr>queue := scan_lines (pattern (config t)) (queue t)
                             (readlines [] (text_from content (position t))),
                  position := tell_at_eof content (position t)\<rparr>))"

text \<open>The handlers get the path of the event as a string, \<^verbatim>\<open>event.src_path\<close>.\<close>

definition on_modified :: "filesystem \<Rightarrow> string \<Rightarrow> Tailer \<Rightarrow> Tailer raised" where
  "on_modified fs src_path t =
     (if Path src_path \<noteq> path t then Inr t else read_new_lines fs t)"

definition on_created :: "filesystem \<Rightarrow> string \<Rightarrow> Tailer \<Rightarrow> Tailer raised" where
  "on_created fs src_path t =
     (if Path src_path = path t then read_new_lines fs (t\<lparr>position := 0\<rparr>) else Inr t)"

definition start :: "filesystem \<Rightarrow> Tailer \<Rightarrow> Tailer raised" where
  "start fs t = read_new_lines fs t"

text \<open>
  \<^verbatim>\<open>main\<close> up to the end of the priming read: the existence check, the construction of
  the \<^verbatim>\<open>Tailer\<close>, and \<^verbatim>\<open>tailer.start()\<close>.
\<close>

definition main_startup :: "filesystem \<Rightarrow> pypath \<Rightarrow> AlertConfig \<Rightarrow> exc + Tailer" where
  "main_startup fs p cfg =
     (case fs p of
        None \<Rightarrow> Inl SystemExit
      | Some content \<Rightarrow>
          (case start fs (Tailer_init p cfg) of
             Inl (e, t) \<Rightarrow> Inl e
           | Inr t \<Rightarrow> Inr t))"

subsection \<open>What happens to the watched file and the watcher, one event at a time\<close>

datatype event =
    Append string
  | Modified string
  | Created string
  | Cycle

definition append_bytes :: "filesystem \<Rightarrow> pypath \<Rightarrow> string \<Rightarrow> filesystem" where
  "append_bytes fs p bs =
     fs(p \<mapsto> (case fs p of None \<Rightarrow> bs | Some content \<Rightarrow> content @ bs))"

fun step :: "event \<Rightarrow> filesystem \<times> Tailer \<Rightarrow> (filesystem \<times> Tailer) raised" where
  "step (Append bs) (fs, t) = Inr (append_bytes fs (path t) bs, t)"
| "step (Modified p) (fs, t) =
     (case on_modified fs p t of Inl (e, t') \<Rightarrow> Inl (e, fs, t') | Inr t' \<Rightarrow> Inr (fs, t'))"
| "step (Created p) (fs, t) =
     (case on_created fs p t of Inl (e, t') \<Rightarrow> Inl (e, fs, t') | Inr t' \<Rightarrow> Inr (fs, t'))"
| "step Cycle (fs, t) =
     (case read_new_lines fs t of Inl (e, t') \<Rightarrow> Inl (e, fs, t') | Inr t' \<Rightarrow> Inr (fs, t'))"

text \<open>The watcher after a step, whether the step returned or raised.\<close>

fun tailer_after :: "(filesystem \<times> Tailer) raised \<Rightarrow> Tailer" where
  "tailer_after (Inl (e, fs, t)) = t"
| "tailer_after (Inr (fs, t)) = t"

text \<open>The event is an \<^verbatim>\<open>on_created\<close> for the watched path, in any spelling of it.\<close>

fun recreates :: "event \<Rightarrow> Tailer \<Rightarrow> bool" where
  "recreates (Created p) t = (Path p = path t)"
| "recreates e t = False"

subsection \<open>\<^verbatim>\<open>send_alert\<close> and the queue worker\<close>

datatype request =
    WebhookPost pystr pystr
  | SlackPost pystr pystr pystr

datatype post_result = Response nat | Raises exc

datatype log_line = WarnWebhook exc | WarnSlack exc

text \<open>
  The outside of the process: the requests attempted so far and the lines printed. How
  the network answers a request may depend on everything attempted before it.
\<close>

record outside =
  attempts :: "request list"
  printed :: "log_line list"

type_synonym network = "request list \<Rightarrow> request \<Rightarrow> post_result"

definition truthy :: "pystr option \<Rightarrow> bool" where
  "truthy v = (case v of None \<Rightarrow> False | Some s \<Rightarrow> s \<noteq> [])"

text \<open>\<^verbatim>\<open>requests.post(...)\<close> followed by \<^verbatim>\<open>response.raise_for_status()\<close>.\<close>

definition post_checked :: "network \<Rightarrow> request \<Rightarrow> outside \<Rightarrow> exc option \<times> outside" where
  "post_checked net req w =
     (let w' = w\<lparr>attempts := attempts w @ [req]\<rparr>
      in case net (attempts w) req of
           Response status \<Rightarrow>
             (if 400 \<le> status \<and> status < 600 then Some (HTTPError status) else None, w')
         | Raises e \<Rightarrow> (Some e, w'))"

definition send_webhook :: "network \<Rightarrow> pystr \<Rightarrow> AlertConfig \<Rightarrow> outside \<Rightarrow> outside raised" where
  "send_webhook net message cfg w =
     (case webhook cfg of
        None \<Rightarrow> Inr w
      | Some url \<Rightarrow>
          if url = [] then Inr w
          else (case post_checked net (WebhookPost url message) w of
                  (None, w') \<Rightarrow> Inr w'
                | (Some e, w') \<Rightarrow>
                    if is_RequestException e
                    then Inr (w'\<lparr>printed := printed w' @ [WarnWebhook e]\<rparr>)
                    else Inl (e, w')))"

definition send_slack :: "network \<Rightarrow> pystr \<Rightarrow> AlertConfig \<Rightarrow> outside \<Rightarrow> outside raised" where
  "send_slack net message cfg w =
     (case (slack_token cfg, slack_channel cfg) of
        (Some token, Some channel) \<Rightarrow>
          if token = [] \<or> channel = [] then Inr w
          else (case post_checked net (SlackPost token channel message) w of
                  (None, w') \<Rightarrow> Inr w'
                | (Some e, w') \<Rightarrow>
                    if is_RequestException e
                    then Inr (w'\<lparr>printed := printed w' @ [WarnSlack e]\<rparr>)
                    else Inl (e, w'))
      | _ \<Rightarrow> Inr w)"

definition send_alert :: "network \<Rightarrow> pystr \<Rightarrow> AlertConfig \<Rightarrow> outside \<Rightarrow> outside raised" where
  "send_alert net message cfg w =
     (case send_webhook net message cfg w of
        Inl ew \<Rightarrow> Inl ew
      | Inr w' \<Rightarrow> send_slack net message cfg w')"

text \<open>
  The worker loop \<^verbatim>\<open>_process_queue\<close>. The first argument is the number of times the
  loop condition finds the stop event not set. An empty queue makes \<^verbatim>\<open>get\<close> raise
  \<^verbatim>\<open>queue.Empty\<close> after its timeout, and the loop goes round.
\<close>

fun process_queue ::
  "network \<Rightarrow> nat \<Rightarrow> Tailer \<times> outside \<Rightarrow> (Tailer \<times> outside) raised" where
  "process_queue net 0 (t, w) = Inr (t, w)"
| "process_queue net (Suc n) (t, w) =
     (case queue t of
        [] \<Rightarrow> process_queue net n (t, w)
      | line # rest \<Rightarrow>
          (case send_alert net line (config t) w of
             Inl (e, w') \<Rightarrow> Inl (e, t\<lparr>queue := rest\<rparr>, w')
           | Inr w' \<Rightarrow> process_queue net n (t\<lparr>queue := rest\<rparr>, w')))"

text \<open>The requests one message calls for, in the order \<^verbatim>\<open>send_alert\<close> makes them.\<close>

definition requests_for :: "AlertConfig \<Rightarrow> pystr \<Rightarrow> request list" where
  "requests_for cfg message =
     (case webhook cfg of
        Some url \<Rightarrow> if url = [] then [] else [WebhookPost url message]
      | None \<Rightarrow> [])
     @ (case (slack_token cfg, slack_channel cfg) of
          (Some token, Some channel) \<Rightarrow>
            if token = [] \<or> channel = [] then [] else [SlackPost token channel message]
        | _ \<Rightarrow> [])"

text \<open>Whether an answer of the network is a failed delivery.\<close>

fun failed :: "post_result \<Rightarrow> bool" where
  "failed (Response status) = (400 \<le> status \<and> status < 600)"
| "failed (Raises e) = True"

text \<open>How many of the requests, made one after another, fail.\<close>

fun failures :: "network \<Rightarrow> request list \<Rightarrow> request list \<Rightarrow> nat" where
  "failures net hist [] = 0"
| "failures net hist (r # rs) =
     (if failed (net hist r) then 1 else 0) + failures net (hist @ [r]) rs"

text \<open>
  A network whose every exception belongs to the \<^verbatim>\<open>RequestException\<close> hierarchy:
  connection errors, timeouts, and the \<^verbatim>\<open>HTTPError\<close> of \<^verbatim>\<open>raise_for_status\<close>.
\<close>

definition only_request_failures :: "network \<Rightarrow> bool" where
  "only_request_failures net \<longleftrightarrow>
     (\<forall>hist req e. net hist req = Raises e \<longrightarrow> is_RequestException e)"

subsection \<open>An example network and configuration\<close>

text \<open>
  A network where the webhook always times out and the chat endpoint answers 200, and a
  configuration with both destinations.
\<close>

definition flaky_net :: network where
  "flaky_net hist req =
     (case req of
        WebhookPost url text \<Rightarrow> Raises Timeout
      | SlackPost token channel text \<Rightarrow> Response 200)"

definition both_cfg :: AlertConfig where
  "both_cfg = \<lparr>pattern = default_pattern, webhook = Some (str ''http://hook''),
               slack_token = Some (str ''tok''), slack_channel = Some (str ''C1'')\<rparr>"

section \<open>Properties\<close>

subsection \<open>The read-and-match cycle\<close>

lemma scan_lines_filter:
  "scan_lines pat q ls = q @ filter (search pat) (map rstrip_nl ls)"
  by (induction ls arbitrary: q) (simp_all add: Let_def)

lemma read_new_lines_exists:
  "fs (path t) = Some content \<Longrightarrow>
   read_new_lines fs t =
     Inr (t\<lparr>queue := queue t @ filter (search (pattern (config t)))
                                 (map rstrip_nl (readlines [] (text_from content (position t)))),
            position := max (position t) (length content)\<rparr>)"
  by (simp add: read_new_lines_def scan_lines_filter tell_at_eof_def)

lemma read_new_lines_missing:
  "fs (path t) = None \<Longrightarrow> read_new_lines fs t = Inl (FileNotFoundError, t)"
  by (simp add: read_new_lines_def)

lemma text_from_at_end: "length content \<le> pos \<Longrightarrow> text_from content pos = []"
  by (simp add: text_from_def)

lemma three_lines_hits:
  "filter (search default_pattern)
     (map rstrip_nl
        (readlines [] (text_from ''INFO ok\<newline>ERROR disk full\<newline>CRITICAL oom\<newline>'' 0)))
   = [str ''ERROR disk full'', str ''CRITICAL oom'']"
  by code_simp

lemma three_lines_open_hits:
  "filter (search default_pattern)
     (map rstrip_nl
        (readlines [] (text_from ''INFO ok\<newline>ERROR disk full\<newline>CRITICAL oom'' 0)))
   = [str ''ERROR disk full'', str ''CRITICAL oom'']"
  by code_simp

text \<open>
  Claim C1. The watched file holds the three lines \<^verbatim>\<open>INFO ok\<close>, \<^verbatim>\<open>ERROR disk full\<close>,
  \<^verbatim>\<open>CRITICAL oom\<close> (the last with or without its newline), the pattern is
  \<^verbatim>\<open>ERROR|CRITICAL\<close> and the offset is 0. Then one read-and-match cycle puts exactly
  two messages on the queue, \<^verbatim>\<open>ERROR disk full\<close> and then \<^verbatim>\<open>CRITICAL oom\<close>, and
  leaves the offset at the end of the file.
\<close>

theorem three_lines_cycle:
  assumes "fs (path t) = Some content"
    and "content = ''INFO ok\<newline>ERROR disk full\<newline>CRITICAL oom\<newline>''
         \<or> content = ''INFO ok\<newline>ERROR disk full\<newline>CRITICAL oom''"
    and "pattern (config t) = default_pattern"
    and "position t = 0"
  shows "read_new_lines fs t =
           Inr (t\<lparr>queue := queue t @ [str ''ERROR disk full'', str ''CRITICAL oom''],
                  position := length content\<rparr>)"
  using assms(2)
proof
  assume c: "content = ''INFO ok\<newline>ERROR disk full\<newline>CRITICAL oom\<newline>''"
  show ?thesis
    using assms(1,3,4) unfolding c
    by (simp only: read_new_lines_exists three_lines_hits max_0L)
next
  assume c: "content = ''INFO ok\<newline>ERROR disk full\<newline>CRITICAL oom''"
  show ?thesis
    using assms(1,3,4) unfolding c
    by (simp only: read_new_lines_exists three_lines_open_hits max_0L)
qed

theorem three_lines_cycle_witness:
  "read_new_lines
     (\<lambda>p. if p = Path ''app.log''
          then Some ''INFO ok\<newline>ERROR disk full\<newline>CRITICAL oom\<newline>'' else None)
     \<lparr>path = Path ''app.log'',
      config = \<lparr>pattern = default_pattern, webhook = None, slack_token = None,
                slack_channel = None\<rparr>,
      position = 0, queue = []\<rparr>
   = Inr \<lparr>path = Path ''app.log'',
      config = \<lparr>pattern = default_pattern, webhook = None, slack_token = None,
                slack_channel = None\<rparr>,
      position = 37, queue = [str ''ERROR disk full'', str ''CRITICAL oom'']\<rparr>"
  using three_lines_cycle [of
     "\<lambda>p. if p = Path ''app.log''
          then Some ''INFO ok\<newline>ERROR disk full\<newline>CRITICAL oom\<newline>'' else None"
     "\<lparr>path = Path ''app.log'',
      config = \<lparr>pattern = default_pattern, webhook = None, slack_token = None,
                slack_channel = None\<rparr>,
      position = 0, queue = []\<rparr>"
     "''INFO ok\<newline>ERROR disk full\<newline>CRITICAL oom\<newline>''"]
  by simp

text \<open>
  Claim C2. Whatever the file holds and wherever the offset starts, a second
  read-and-match cycle right after a first one, the file unchanged, puts nothing on the
  queue: the first cycle has left the offset at or beyond the end of the file.
\<close>

theorem second_cycle_enqueues_nothing:
  assumes "fs (path t) = Some content"
  shows "\<exists>t1 t2. read_new_lines fs t = Inr t1 \<and> read_new_lines fs t1 = Inr t2
           \<and> queue t2 = queue t1 \<and> position t2 = position t1
           \<and> length content \<le> position t1"
proof -
  let ?t1 = "t\<lparr>queue := queue t @ filter (search (pattern (config t)))
                                 (map rstrip_nl (readlines [] (text_from content (position t)))),
            position := max (position t) (length content)\<rparr>"
  have 1: "read_new_lines fs t = Inr ?t1"
    using assms by (rule read_new_lines_exists)
  have p: "fs (path ?t1) = Some content" using assms by simp
  have e: "text_from content (position ?t1) = []"
    by (rule text_from_at_end) simp
  have 2: "read_new_lines fs ?t1 = Inr ?t1"
    using read_new_lines_exists [of fs ?t1 content, OF p] unfolding e by simp
  show ?thesis using 1 2 by simp
qed

theorem second_cycle_enqueues_nothing_witness:
  "\<exists>t1 t2.
     read_new_lines (\<lambda>p. Some ''ERROR a\<newline>ERROR b'')
       \<lparr>path = Path ''app.log'',
        config = \<lparr>pattern = default_pattern, webhook = None, slack_token = None,
                  slack_channel = None\<rparr>,
        position = 3, queue = []\<rparr> = Inr t1
     \<and> read_new_lines (\<lambda>p. Some ''ERROR a\<newline>ERROR b'') t1 = Inr t2
     \<and> queue t2 = queue t1 \<and> position t2 = position t1
     \<and> length ''ERROR a\<newline>ERROR b'' \<le> position t1"
  using second_cycle_enqueues_nothing [of "\<lambda>p. Some ''ERROR a\<newline>ERROR b''"
     "\<lparr>path = Path ''app.log'',
        config = \<lparr>pattern = default_pattern, webhook = None, slack_token = None,
                  slack_channel = None\<rparr>,
        position = 3, queue = []\<rparr>" "''ERROR a\<newline>ERROR b''"]
  by simp

lemma readlines_no_newline:
  "10 \<notin> set ys \<Longrightarrow> readlines cur ys = (if cur @ ys = [] then [] else [cur @ ys])"
  by (induction ys arbitrary: cur) auto

lemma readlines_after_complete:
  "pre \<noteq> [] \<Longrightarrow> last pre = 10 \<Longrightarrow>
   readlines cur (pre @ ys) = readlines cur pre @ readlines [] ys"
proof (induction pre arbitrary: cur)
  case Nil
  then show ?case by simp
next
  case (Cons c pre)
  show ?case
  proof (cases "pre = []")
    case True
    with Cons.prems show ?thesis by simp
  next
    case False
    with Cons.prems have "last pre = 10" by simp
    with False Cons.IH show ?thesis by simp
  qed
qed

lemma readlines_partial_last:
  assumes "pre = [] \<or> last pre = 10" and "partial \<noteq> []" and "10 \<notin> set partial"
  shows "readlines [] (pre @ partial) = readlines [] pre @ [partial]"
proof (cases "pre = []")
  case True
  with assms show ?thesis by (simp add: readlines_no_newline)
next
  case False
  with assms have "last pre = 10" by simp
  with False assms(2,3) show ?thesis
    by (simp add: readlines_after_complete readlines_no_newline)
qed

lemma rstrip_nl_no_newline: "10 \<notin> set s \<Longrightarrow> rstrip_nl s = s"
proof -
  assume "10 \<notin> set s"
  then have "dropWhile (\<lambda>c. c = 10) (rev s) = rev s"
    by (cases "rev s") auto
  then show ?thesis by (simp add: rstrip_nl_def)
qed

lemma text_from_appended: "text_from (old @ app) (length old) = text_from app 0"
  by (simp add: text_from_def)

text \<open>
  Claim C4. Bytes are appended after the offset, and the text they decode to ends in a
  piece \<open>partial\<close> that is not empty and has no newline (\<open>pre\<close> is the complete lines
  before it). Then the cycle yields \<open>partial\<close> as its last line, tests it against the
  pattern and puts it on the queue when it matches, and the offset moves to the new end of
  the file.
\<close>

theorem partial_line_is_read:
  assumes "fs (path t) = Some (old @ app)"
    and "position t = length old"
    and "text_from app 0 = pre @ partial"
    and "pre = [] \<or> last pre = 10"
    and "partial \<noteq> []"
    and "10 \<notin> set partial"
  shows "read_new_lines fs t =
           Inr (t\<lparr>queue := queue t
                     @ filter (search (pattern (config t))) (map rstrip_nl (readlines [] pre))
                     @ (if search (pattern (config t)) partial then [partial] else []),
                  position := length old + length app\<rparr>)"
proof -
  have "readlines [] (text_from (old @ app) (position t)) = readlines [] pre @ [partial]"
    using assms(2-6) by (simp add: text_from_appended readlines_partial_last)
  then show ?thesis
    using assms(1,2,6) by (simp add: read_new_lines_exists rstrip_nl_no_newline)
qed

lemma partial_example_text:
  "text_from ''x\<newline>ERROR par'' 0 = str ''x\<newline>'' @ str ''ERROR par''"
  by code_simp

lemma partial_example_facts:
  "last (str ''x\<newline>'') = 10" "str ''ERROR par'' \<noteq> []" "10 \<notin> set (str ''ERROR par'')"
  "search default_pattern (str ''ERROR par'')"
  "filter (search default_pattern) (map rstrip_nl (readlines [] (str ''x\<newline>''))) = []"
  by code_simp+

theorem partial_line_is_read_witness:
  "read_new_lines (\<lambda>p. Some (''INFO ok\<newline>'' @ ''x\<newline>ERROR par''))
     \<lparr>path = Path ''app.log'',
      config = \<lparr>pattern = default_pattern, webhook = None, slack_token = None,
                slack_channel = None\<rparr>,
      position = 8, queue = []\<rparr>
   = Inr \<lparr>path = Path ''app.log'',
      config = \<lparr>pattern = default_pattern, webhook = None, slack_token = None,
                slack_channel = None\<rparr>,
      position = 19, queue = [str ''ERROR par'']\<rparr>"
  using partial_line_is_read [of "\<lambda>p. Some (''INFO ok\<newline>'' @ ''x\<newline>ERROR par'')"
     "\<lparr>path = Path ''app.log'',
      config = \<lparr>pattern = default_pattern, webhook = None, slack_token = None,
                slack_channel = None\<rparr>,
      position = 8, queue = []\<rparr>" "''INFO ok\<newline>''" "''x\<newline>ERROR par''"
     "str ''x\<newline>''" "str ''ERROR par''", OF _ _ partial_example_text _ partial_example_facts(2,3)]
    partial_example_facts(1,4,5)
  by simp

subsection \<open>Events and the offset\<close>

text \<open>
  Claim C3. Over appends to the file, read-and-match cycles and the two event handlers,
  the offset never decreases in a step, except in an \<^verbatim>\<open>on_created\<close> event whose path
  is the watched path (as \<^verbatim>\<open>Path\<close> compares them); that event is a cycle run from
  offset 0.
\<close>

lemma other_spelling: "Path ''./app.log'' = Path ''app.log''"
  by (simp add: Path_def path_anchor_def)

theorem offset_monotone_except_create:
  "(\<not> recreates e t \<longrightarrow> position t \<le> position (tailer_after (step e (fs, t))))
   \<and> (recreates e t \<longrightarrow> step e (fs, t) = step Cycle (fs, t\<lparr>position := 0\<rparr>))"
proof (cases e)
  case (Append bs)
  then show ?thesis by simp
next
  case (Modified p)
  then show ?thesis
    by (cases "fs (path t)")
       (simp_all add: on_modified_def read_new_lines_missing read_new_lines_exists)
next
  case (Created p)
  then show ?thesis by (simp add: on_created_def)
next
  case Cycle
  then show ?thesis
    by (cases "fs (path t)") (simp_all add: read_new_lines_missing read_new_lines_exists)
qed

theorem offset_monotone_except_create_witness:
  "position \<lparr>path = Path ''app.log'',
        config = \<lparr>pattern = default_pattern, webhook = None, slack_token = None,
                  slack_channel = None\<rparr>,
        position = 3, queue = []\<rparr>
   \<le> position (tailer_after (step (Modified ''./app.log'') (\<lambda>p. Some ''ERROR a\<newline>ERROR b'',
      \<lparr>path = Path ''app.log'',
        config = \<lparr>pattern = default_pattern, webhook = None, slack_token = None,
                  slack_channel = None\<rparr>,
        position = 3, queue = []\<rparr>)))
   \<and> step (Created ''./app.log'') (\<lambda>p. Some ''ERROR a\<newline>ERROR b'',
      \<lparr>path = Path ''app.log'',
        config = \<lparr>pattern = default_pattern, webhook = None, slack_token = None,
                  slack_channel = None\<rparr>,
        position = 3, queue = []\<rparr>)
     = step Cycle (\<lambda>p. Some ''ERROR a\<newline>ERROR b'',
      \<lparr>path = Path ''app.log'',
        config = \<lparr>pattern = default_pattern, webhook = None, slack_token = None,
                  slack_channel = None\<rparr>,
        position = 0, queue = []\<rparr>)"
  using offset_monotone_except_create [of "Modified ''./app.log''"
     "\<lparr>path = Path ''app.log'',
        config = \<lparr>pattern = default_pattern, webhook = None, slack_token = None,
                  slack_channel = None\<rparr>,
        position = 3, queue = []\<rparr>" "\<lambda>p. Some ''ERROR a\<newline>ERROR b''"]
    offset_monotone_except_create [of "Created ''./app.log''"
     "\<lparr>path = Path ''app.log'',
        config = \<lparr>pattern = default_pattern, webhook = None, slack_token = None,
                  slack_channel = None\<rparr>,
        position = 3, queue = []\<rparr>" "\<lambda>p. Some ''ERROR a\<newline>ERROR b''"]
  by (simp add: other_spelling)

text \<open>
  The exception at work: the file was replaced by a shorter one, and the create event
  names the watched path in another spelling. The offset goes from 15 to 8.
\<close>

lemma create_event_lowers_offset:
  "step (Created ''./app.log'') (\<lambda>p. Some ''INFO ok\<newline>'',
      \<lparr>path = Path ''app.log'',
        config = \<lparr>pattern = default_pattern, webhook = None, slack_token = None,
                  slack_channel = None\<rparr>,
        position = 15, queue = []\<rparr>)
   = Inr (\<lambda>p. Some ''INFO ok\<newline>'',
      \<lparr>path = Path ''app.log'',
        config = \<lparr>pattern = default_pattern, webhook = None, slack_token = None,
                  slack_channel = None\<rparr>,
        position = 8, queue = []\<rparr>)"
proof -
  have "filter (search default_pattern)
          (map rstrip_nl (readlines [] (text_from ''INFO ok\<newline>'' 0))) = []"
    by code_simp
  then show ?thesis
    by (simp add: on_created_def other_spelling read_new_lines_exists)
qed

text \<open>
  Claim C8. When the watched path does not exist, the cycle raises
  \<^verbatim>\<open>FileNotFoundError\<close>; neither the reader nor \<^verbatim>\<open>start\<close>, nor \<^verbatim>\<open>on_modified\<close> or
  \<^verbatim>\<open>on_created\<close> for an event on the watched path, catches it, and the queue is as it
  was.
\<close>

theorem missing_file_propagates:
  assumes "fs (path t) = None" and "Path src_path = path t"
  shows "read_new_lines fs t = Inl (FileNotFoundError, t)
         \<and> start fs t = Inl (FileNotFoundError, t)
         \<and> on_modified fs src_path t = Inl (FileNotFoundError, t)
         \<and> on_created fs src_path t = Inl (FileNotFoundError, t\<lparr>position := 0\<rparr>)"
  using assms by (simp add: start_def on_modified_def on_created_def read_new_lines_def)

theorem missing_file_propagates_witness:
  "on_modified (\<lambda>p. None) ''./app.log''
     (Tailer_init (Path ''app.log'')
        \<lparr>pattern = default_pattern, webhook = None, slack_token = None,
         slack_channel = None\<rparr>)
   = Inl (FileNotFoundError,
       Tailer_init (Path ''app.log'')
         \<lparr>pattern = default_pattern, webhook = None, slack_token = None,
          slack_channel = None\<rparr>)"
  using missing_file_propagates [of "\<lambda>p. None"
      "Tailer_init (Path ''app.log'')
         \<lparr>pattern = default_pattern, webhook = None, slack_token = None,
          slack_channel = None\<rparr>" "''./app.log''"]
  by (simp add: Tailer_init_def other_spelling)

subsection \<open>The matcher\<close>

inductive_cases m_failE [elim!]: "matches ci pre Fail w post"
inductive_cases m_emptyE [elim!]: "matches ci pre Empty w post"
inductive_cases m_litE [elim!]: "matches ci pre (Lit c) w post"
inductive_cases m_anyE [elim!]: "matches ci pre AnyChar w post"
inductive_cases m_one_ofE [elim!]: "matches ci pre (OneOf cs) w post"
inductive_cases m_none_ofE [elim!]: "matches ci pre (NoneOf cs) w post"
inductive_cases m_bolE [elim!]: "matches ci pre Bol w post"
inductive_cases m_eolE [elim!]: "matches ci pre Eol w post"
inductive_cases m_branchE [elim!]: "matches ci pre (Branch r s) w post"
inductive_cases m_concatE [elim!]: "matches ci pre (Concat r s) w post"
inductive_cases m_ignore_caseE [elim!]: "matches ci pre (IgnoreCase r) w post"

lemma at_end_Cons: "at_end (d # ds) \<longleftrightarrow> d = 10 \<and> ds = []"
  by (simp add: at_end_def)

lemma m_concat_nil:
  "matches ci pre r [] post \<Longrightarrow> matches ci pre s [] post \<Longrightarrow>
   matches ci pre (Concat r s) [] post"
  using m_concat [of ci pre r "[]" "[]" post s] by simp

lemma m_concat_cons:
  "matches ci pre r (d # u) (v @ post) \<Longrightarrow> matches ci (pre @ d # u) s v post \<Longrightarrow>
   matches ci pre (Concat r s) (d # u @ v) post"
  using m_concat [of ci pre r "d # u" v post s] by simp

lemma m_concat_skip:
  "matches ci pre r [] (w @ post) \<Longrightarrow> matches ci pre s w post \<Longrightarrow>
   matches ci pre (Concat r s) w post"
  using m_concat [of ci pre r "[]" w post s] by simp

lemma m_repeat_cons:
  "matches ci pre r (d # u) (v @ post) \<Longrightarrow> matches ci (pre @ d # u) (Repeat r) v post \<Longrightarrow>
   matches ci pre (Repeat r) (d # u @ v) post"
  using m_repeat_more [of ci pre r "d # u" v post] by simp

lemma nullable_matches:
  "nullable (pre = []) (at_end post) r \<longleftrightarrow> matches ci pre r [] post"
proof (induction r arbitrary: ci)
  case (Concat r s)
  then show ?case by (auto intro: m_concat_nil)
next
  case (Repeat r)
  show ?case by (simp add: m_repeat_nil)
next
  case (IgnoreCase r)
  then show ?case by (auto intro: matches.intros)
qed (auto intro: matches.intros)

lemma repeat_cons_split:
  assumes "matches ci pre q w post" and "q = Repeat r" and "w = d # x"
  shows "\<exists>u v. x = u @ v \<and> matches ci pre r (d # u) (v @ post)
           \<and> matches ci (pre @ d # u) (Repeat r) v post"
  using assms
proof (induction ci pre q w post arbitrary: x rule: matches.induct)
  case (m_repeat_more ci pre r' u v post)
  show ?case
  proof (cases u)
    case Nil
    with m_repeat_more show ?thesis by simp
  next
    case (Cons a u')
    with m_repeat_more.prems have "a = d" and "x = u' @ v" by simp_all
    with m_repeat_more.hyps m_repeat_more.prems Cons show ?thesis by blast
  qed
qed simp_all

lemma deriv_matches:
  "matches ci (pre @ [d]) (deriv ci (pre = []) (at_end (d # w @ post)) d r) w post
   \<longleftrightarrow> matches ci pre r (d # w) post"
proof (induction r arbitrary: ci pre w post)
  case Fail
  show ?case by auto
next
  case Empty
  show ?case by auto
next
  case (Lit c)
  show ?case by (auto intro: m_lit m_empty)
next
  case AnyChar
  show ?case by (auto intro: m_any m_empty)
next
  case (OneOf cs)
  show ?case by (auto intro: m_one_of m_empty)
next
  case (NoneOf cs)
  show ?case by (auto intro: m_none_of m_empty)
next
  case Bol
  show ?case by auto
next
  case Eol
  show ?case by auto
next
  case (Branch r s)
  then show ?case by (auto intro: m_branch_l m_branch_r)
next
  case (Concat r s)
  let ?eol = "at_end (d # w @ post)"
  show ?case
  proof
    assume "matches ci (pre @ [d]) (deriv ci (pre = []) ?eol d (Concat r s)) w post"
    then consider
      (a) u v where "w = u @ v"
        "matches ci (pre @ [d]) (deriv ci (pre = []) ?eol d r) u (v @ post)"
        "matches ci ((pre @ [d]) @ u) s v post"
      | (b) "nullable (pre = []) ?eol r"
        "matches ci (pre @ [d]) (deriv ci (pre = []) ?eol d s) w post"
      by (auto split: if_splits)
    then show "matches ci pre (Concat r s) (d # w) post"
    proof cases
      case a
      from a(2) have "matches ci pre r (d # u) (v @ post)"
        using Concat.IH(1) [of ci pre u "v @ post"] a(1) by simp
      then show ?thesis using a(1,3) by (simp add: m_concat_cons)
    next
      case b
      from b(1) have "matches ci pre r [] ((d # w) @ post)"
        using nullable_matches [of pre "d # w @ post" r ci] by simp
      moreover from b(2) have "matches ci pre s (d # w) post"
        using Concat.IH(2) by simp
      ultimately show ?thesis by (rule m_concat_skip)
    qed
  next
    assume "matches ci pre (Concat r s) (d # w) post"
    then obtain u v where uv: "d # w = u @ v" "matches ci pre r u (v @ post)"
      "matches ci (pre @ u) s v post" by auto
    show "matches ci (pre @ [d]) (deriv ci (pre = []) ?eol d (Concat r s)) w post"
    proof (cases u)
      case Nil
      with uv have v: "v = d # w" by simp
      with uv Nil have "matches ci pre r [] (d # w @ post)" by simp
      then have n: "nullable (pre = []) ?eol r"
        using nullable_matches [of pre "d # w @ post" r ci] by simp
      from Nil uv v have "matches ci (pre @ [d]) (deriv ci (pre = []) ?eol d s) w post"
        using Concat.IH(2) by simp
      with n show ?thesis by (simp add: m_branch_r)
    next
      case (Cons a u')
      with uv have w: "a = d" "w = u' @ v" by simp_all
      with uv Cons have "matches ci (pre @ [d]) (deriv ci (pre = []) ?eol d r) u' (v @ post)"
        using Concat.IH(1) [of ci pre u' "v @ post"] by simp
      moreover from uv Cons w have "matches ci ((pre @ [d]) @ u') s v post" by simp
      ultimately have
        "matches ci (pre @ [d]) (Concat (deriv ci (pre = []) ?eol d r) s) (u' @ v) post"
        by (rule m_concat)
      with w show ?thesis by (simp add: m_branch_l)
    qed
  qed
next
  case (Repeat r)
  let ?eol = "at_end (d # w @ post)"
  show ?case
  proof
    assume "matches ci (pre @ [d]) (deriv ci (pre = []) ?eol d (Repeat r)) w post"
    then obtain u v where uv: "w = u @ v"
      "matches ci (pre @ [d]) (deriv ci (pre = []) ?eol d r) u (v @ post)"
      "matches ci ((pre @ [d]) @ u) (Repeat r) v post"
      by auto
    from uv(1,2) have "matches ci pre r (d # u) (v @ post)"
      using Repeat.IH [of ci pre u "v @ post"] by simp
    then show "matches ci pre (Repeat r) (d # w) post"
      using uv(1,3) by (simp add: m_repeat_cons)
  next
    assume "matches ci pre (Repeat r) (d # w) post"
    from repeat_cons_split [OF this refl refl]
    obtain u v where uv: "w = u @ v" "matches ci pre r (d # u) (v @ post)"
      "matches ci (pre @ d # u) (Repeat r) v post"
      by blast
    from uv(1,2) have "matches ci (pre @ [d]) (deriv ci (pre = []) ?eol d r) u (v @ post)"
      using Repeat.IH [of ci pre u "v @ post"] by simp
    moreover from uv(3) have "matches ci ((pre @ [d]) @ u) (Repeat r) v post" by simp
    ultimately have
      "matches ci (pre @ [d]) (Concat (deriv ci (pre = []) ?eol d r) (Repeat r)) (u @ v) post"
      by (rule m_concat)
    with uv(1) show "matches ci (pre @ [d]) (deriv ci (pre = []) ?eol d (Repeat r)) w post"
      by simp
  qed
next
  case (IgnoreCase r)
  show ?case
    using IgnoreCase.IH [of True pre w post] by (auto intro: m_ignore_case)
qed

lemma match_here_iff:
  "match_here (pre = []) r rest \<longleftrightarrow> (\<exists>v w. rest = v @ w \<and> matches False pre r v w)"
proof (induction rest arbitrary: pre r)
  case Nil
  show ?case using nullable_matches [of pre "[]" r False] by (simp add: at_end_def)
next
  case (Cons d ds)
  let ?eol = "d = 10 \<and> ds = []"
  define D where "D = deriv False (pre = []) ?eol d r"
  have step: "matches False (pre @ [d]) D v w \<longleftrightarrow> matches False pre r (d # v) w"
    if "ds = v @ w" for v w
  proof -
    from that have "at_end (d # v @ w) = ?eol" by (simp add: at_end_Cons)
    with deriv_matches [of False pre d v w r] show ?thesis by (simp add: D_def)
  qed
  have "match_here (pre @ [d] = []) D ds
        \<longleftrightarrow> (\<exists>v w. ds = v @ w \<and> matches False (pre @ [d]) D v w)"
    by (rule Cons.IH)
  then have "match_here False D ds
        \<longleftrightarrow> (\<exists>v w. ds = v @ w \<and> matches False (pre @ [d]) D v w)"
    by simp
  with step have ih: "match_here False D ds
        \<longleftrightarrow> (\<exists>v w. ds = v @ w \<and> matches False pre r (d # v) w)"
    by blast
  have n: "nullable (pre = []) ?eol r \<longleftrightarrow> matches False pre r [] (d # ds)"
    using nullable_matches [of pre "d # ds" r False] by (simp add: at_end_Cons)
  show ?case
  proof
    assume "match_here (pre = []) r (d # ds)"
    then have "nullable (pre = []) ?eol r \<or> match_here False D ds"
      by (simp add: D_def)
    then consider "matches False pre r [] (d # ds)"
      | v w where "ds = v @ w" "matches False pre r (d # v) w"
      using ih n by blast
    then show "\<exists>v w. d # ds = v @ w \<and> matches False pre r v w"
    proof cases
      case 1
      then have "d # ds = [] @ (d # ds) \<and> matches False pre r [] (d # ds)" by simp
      then show ?thesis by blast
    next
      case 2
      then have "d # ds = (d # v) @ w \<and> matches False pre r (d # v) w" by simp
      then show ?thesis by blast
    qed
  next
    assume "\<exists>v w. d # ds = v @ w \<and> matches False pre r v w"
    then obtain v w where vw: "d # ds = v @ w" "matches False pre r v w" by blast
    show "match_here (pre = []) r (d # ds)"
    proof (cases v)
      case Nil
      with vw have "matches False pre r [] (d # ds)" by simp
      with n show ?thesis by simp
    next
      case (Cons a v')
      with vw have "ds = v' @ w" "matches False pre r (d # v') w" by simp_all
      with ih have "match_here False D ds" by blast
      then show ?thesis by (simp add: D_def)
    qed
  qed
qed

lemma search_from_iff:
  "search_from (pre = []) r rest
   \<longleftrightarrow> (\<exists>u v w. rest = u @ v @ w \<and> matches False (pre @ u) r v w)"
proof (induction rest arbitrary: pre)
  case Nil
  show ?case using match_here_iff [of pre r "[]"] by simp
next
  case (Cons d ds)
  have ih: "search_from False r ds
      \<longleftrightarrow> (\<exists>u v w. ds = u @ v @ w \<and> matches False (pre @ d # u) r v w)"
    using Cons.IH [of "pre @ [d]"] by simp
  show ?case
  proof
    assume "search_from (pre = []) r (d # ds)"
    then consider "match_here (pre = []) r (d # ds)" | "search_from False r ds" by auto
    then show "\<exists>u v w. d # ds = u @ v @ w \<and> matches False (pre @ u) r v w"
    proof cases
      case 1
      then obtain v w where "d # ds = [] @ v @ w" "matches False (pre @ []) r v w"
        using match_here_iff [of pre r "d # ds"] by auto
      then show ?thesis by blast
    next
      case 2
      then obtain u v w where "ds = u @ v @ w" "matches False (pre @ d # u) r v w"
        using ih by blast
      then have "d # ds = (d # u) @ v @ w \<and> matches False (pre @ d # u) r v w" by simp
      then show ?thesis by blast
    qed
  next
    assume "\<exists>u v w. d # ds = u @ v @ w \<and> matches False (pre @ u) r v w"
    then obtain u v w where uvw: "d # ds = u @ v @ w" "matches False (pre @ u) r v w"
      by blast
    show "search_from (pre = []) r (d # ds)"
    proof (cases u)
      case Nil
      with uvw have "match_here (pre = []) r (d # ds)"
        using match_here_iff [of pre r "d # ds"] by auto
      then show ?thesis by simp
    next
      case (Cons a u')
      with uvw have "ds = u' @ v @ w" "matches False (pre @ d # u') r v w" by simp_all
      then have "search_from False r ds" using ih by blast
      then show ?thesis by simp
    qed
  qed
qed

lemma search_iff:
  "search r line \<longleftrightarrow> (\<exists>u v w. line = u @ v @ w \<and> matches False u r v w)"
  using search_from_iff [of "[]" r line] by (simp add: search_def)

lemma literal_matches:
  "matches ci pre (literal s) v post
   \<longleftrightarrow> (if ci then map ascii_lower v = map ascii_lower s else v = s)"
proof (induction s arbitrary: pre v)
  case Nil
  show ?case by (auto intro: matches.intros)
next
  case (Cons c s)
  show ?case
  proof
    assume "matches ci pre (literal (c # s)) v post"
    then obtain d v' where v: "v = d # v'" "same_char ci c d"
      "matches ci (pre @ [d]) (literal s) v' post"
      by auto
    with Cons.IH [of "pre @ [d]" v']
    show "if ci then map ascii_lower v = map ascii_lower (c # s) else v = c # s"
      by (auto simp: same_char_def split: if_splits)
  next
    assume a: "if ci then map ascii_lower v = map ascii_lower (c # s) else v = c # s"
    then obtain d v' where v: "v = d # v'" by (cases v) (auto split: if_splits)
    with a have sc: "same_char ci c d"
      and rest: "if ci then map ascii_lower v' = map ascii_lower s else v' = s"
      by (auto simp: same_char_def split: if_splits)
    from sc have "matches ci pre (Lit c) [d] (v' @ post)" by (rule m_lit)
    moreover from rest have "matches ci (pre @ [d]) (literal s) v' post"
      using Cons.IH [of "pre @ [d]" v'] by simp
    ultimately have "matches ci pre (Concat (Lit c) (literal s)) ([d] @ v') post"
      by (rule m_concat)
    with v show "matches ci pre (literal (c # s)) v post" by simp
  qed
qed

lemma ignore_case_matches:
  "matches ci pre (IgnoreCase r) v post \<longleftrightarrow> matches True pre r v post"
  by (auto intro: m_ignore_case)

lemma rstrip_nl_one_newline: "10 \<notin> set s \<Longrightarrow> rstrip_nl (s @ [10]) = s"
  using rstrip_nl_no_newline [of s] by (simp add: rstrip_nl_def)

text \<open>
  Claim C5. The test of a line is \<^verbatim>\<open>pattern.search\<close>: true exactly when the pattern
  matches some part of the line, wherever it lies. A literal pattern is found exactly where
  the line holds the same characters; case is ignored only under the pattern's own flag.
  The loop tests and enqueues the line as read, less its newline, and nothing else is done
  to it.
\<close>

theorem search_is_unanchored_occurrence:
  "(search pat line \<longleftrightarrow> (\<exists>u v w. line = u @ v @ w \<and> matches False u pat v w))
   \<and> (search (literal s) line \<longleftrightarrow> (\<exists>u w. line = u @ s @ w))
   \<and> (search (IgnoreCase (literal s)) line \<longleftrightarrow>
        (\<exists>u v w. line = u @ v @ w \<and> map ascii_lower v = map ascii_lower s))
   \<and> (10 \<notin> set line \<longrightarrow>
        scan_lines pat q [line @ [10]] = (if search pat line then q @ [line] else q)
        \<and> scan_lines pat q [line] = (if search pat line then q @ [line] else q))"
proof -
  have 1: "search pat line \<longleftrightarrow> (\<exists>u v w. line = u @ v @ w \<and> matches False u pat v w)"
    by (rule search_iff)
  have 2: "search (literal s) line \<longleftrightarrow> (\<exists>u w. line = u @ s @ w)"
    by (simp add: search_iff literal_matches)
  have 3: "search (IgnoreCase (literal s)) line \<longleftrightarrow>
        (\<exists>u v w. line = u @ v @ w \<and> map ascii_lower v = map ascii_lower s)"
    by (simp add: search_iff ignore_case_matches literal_matches)
  have 4: "10 \<notin> set line \<longrightarrow>
        scan_lines pat q [line @ [10]] = (if search pat line then q @ [line] else q)
        \<and> scan_lines pat q [line] = (if search pat line then q @ [line] else q)"
    by (simp add: Let_def rstrip_nl_no_newline rstrip_nl_one_newline)
  from 1 2 3 4 show ?thesis by blast
qed

lemma search_examples:
  "search default_pattern (str ''disk ERROR now'')"
  "\<not> search default_pattern (str ''disk error now'')"
  "search (IgnoreCase default_pattern) (str ''disk error now'')"
  "\<not> search (Concat Bol default_pattern) (str ''disk ERROR now'')"
  "search (Concat default_pattern Eol) (str ''disk ERROR'')"
  "10 \<notin> set (str ''disk ERROR now'')"
  by code_simp+

theorem search_is_unanchored_occurrence_witness:
  "(\<exists>u v w. str ''disk ERROR now'' = u @ v @ w \<and> matches False u default_pattern v w)
   \<and> \<not> (\<exists>u v w. str ''disk error now'' = u @ v @ w \<and> matches False u default_pattern v w)
   \<and> (\<exists>u v w. str ''disk error now'' = u @ v @ w
         \<and> matches False u (IgnoreCase default_pattern) v w)
   \<and> \<not> (\<exists>u v w. str ''disk ERROR now'' = u @ v @ w
           \<and> matches False u (Concat Bol default_pattern) v w)
   \<and> scan_lines default_pattern [] [str ''disk ERROR now'' @ [10]] = [str ''disk ERROR now'']"
  using search_examples
    search_is_unanchored_occurrence [of default_pattern "str ''disk ERROR now''" "[]" "[]"]
    search_is_unanchored_occurrence [of default_pattern "str ''disk error now''" "[]" "[]"]
    search_is_unanchored_occurrence [of "IgnoreCase default_pattern" "str ''disk error now''"
      "[]" "[]"]
    search_is_unanchored_occurrence [of "Concat Bol default_pattern" "str ''disk ERROR now''"
      "[]" "[]"]
  by simp

subsection \<open>Startup\<close>

text \<open>
  Claim C6. The watched file exists at startup and \<open>line\<close> is its first line that matches
  the pattern. Then the priming cycle of \<^verbatim>\<open>main\<close>, run from offset 0 on an empty queue,
  puts \<open>line\<close> on the queue first.
\<close>

theorem startup_replays_existing_match:
  assumes "fs p = Some content"
    and "map rstrip_nl (readlines [] (text_from content 0)) = before @ line # after"
    and "\<forall>x \<in> set before. \<not> search (pattern cfg) x"
    and "search (pattern cfg) line"
  shows "\<exists>t. main_startup fs p cfg = Inr t
           \<and> queue t = line # filter (search (pattern cfg)) after
           \<and> position t = length content"
  using assms
  by (simp add: main_startup_def start_def Tailer_init_def read_new_lines_exists)

lemma startup_example_lines:
  "map rstrip_nl (readlines [] (text_from ''INFO boot\<newline>ERROR old\<newline>INFO up\<newline>'' 0))
   = [str ''INFO boot''] @ str ''ERROR old'' # [str ''INFO up'']"
  by code_simp

lemma startup_example_facts:
  "\<forall>x \<in> set [str ''INFO boot'']. \<not> search default_pattern x"
  "search default_pattern (str ''ERROR old'')"
  "filter (search default_pattern) [str ''INFO up''] = []"
  by code_simp+

theorem startup_replays_existing_match_witness:
  "\<exists>t. main_startup (\<lambda>p. Some ''INFO boot\<newline>ERROR old\<newline>INFO up\<newline>'') (Path ''app.log'')
         \<lparr>pattern = default_pattern, webhook = None, slack_token = None,
                    slack_channel = None\<rparr> = Inr t
       \<and> queue t = [str ''ERROR old'']
       \<and> position t = length ''INFO boot\<newline>ERROR old\<newline>INFO up\<newline>''"
  using startup_replays_existing_match [of
      "\<lambda>p. Some ''INFO boot\<newline>ERROR old\<newline>INFO up\<newline>''" "Path ''app.log''"
      "''INFO boot\<newline>ERROR old\<newline>INFO up\<newline>''" "[str ''INFO boot'']" "str ''ERROR old''"
      "[str ''INFO up'']"
      "\<lparr>pattern = default_pattern, webhook = None, slack_token = None,
                    slack_channel = None\<rparr>",
      OF _ startup_example_lines]
    startup_example_facts
  by simp

subsection \<open>Delivery\<close>

lemma failures_append:
  "failures net hist (xs @ ys) = failures net hist xs + failures net (hist @ xs) ys"
  by (induction xs arbitrary: hist) simp_all

lemma post_checked_attempts:
  "post_checked net req w = (r, w') \<Longrightarrow>
   attempts w' = attempts w @ [req] \<and> printed w' = printed w
   \<and> (r = None \<longleftrightarrow> \<not> failed (net (attempts w) req))
   \<and> (\<forall>e. r = Some e \<longrightarrow> \<not> is_RequestException e \<longrightarrow> net (attempts w) req = Raises e)"
  by (auto simp: post_checked_def Let_def split: post_result.splits if_splits)
lemma send_webhook_caught:
  assumes "only_request_failures net"
  shows "\<exists>w'. send_webhook net message cfg w = Inr w'
           \<and> attempts w' = attempts w @ 
               (case webhook cfg of
                  Some url \<Rightarrow> if url = [] then [] else [WebhookPost url message]
                | None \<Rightarrow> [])
           \<and> length (printed w') = length (printed w) + failures net (attempts w)
               (case webhook cfg of
                  Some url \<Rightarrow> if url = [] then [] else [WebhookPost url message]
                | None \<Rightarrow> [])"
proof (cases "webhook cfg")
  case None
  then show ?thesis by (simp add: send_webhook_def)
next
  case (Some url)
  show ?thesis
  proof (cases "url = []")
    case True
    with Some show ?thesis by (simp add: send_webhook_def)
  next
    case False
    obtain r w' where p: "post_checked net (WebhookPost url message) w = (r, w')"
      by (cases "post_checked net (WebhookPost url message) w")
    note f = post_checked_attempts [OF p]
    show ?thesis
    proof (cases r)
      case None
      with Some False p f show ?thesis by (simp add: send_webhook_def)
    next
      case (Some e)
      have "is_RequestException e"
        using f Some assms unfolding only_request_failures_def by blast
      with Some \<open>webhook cfg = Some url\<close> False p f show ?thesis
        by (simp add: send_webhook_def)
    qed
  qed
qed

lemma send_slack_caught:
  assumes "only_request_failures net"
  shows "\<exists>w'. send_slack net message cfg w = Inr w'
           \<and> attempts w' = attempts w @ 
               (case (slack_token cfg, slack_channel cfg) of
                  (Some token, Some channel) \<Rightarrow>
                    if token = [] \<or> channel = [] then [] else [SlackPost token channel message]
                | _ \<Rightarrow> [])
           \<and> length (printed w') = length (printed w) + failures net (attempts w)
               (case (slack_token cfg, slack_channel cfg) of
                  (Some token, Some channel) \<Rightarrow>
                    if token = [] \<or> channel = [] then [] else [SlackPost token channel message]
                | _ \<Rightarrow> [])"
proof (cases "slack_token cfg")
  case None
  then show ?thesis by (simp add: send_slack_def)
next
  case tok: (Some token)
  show ?thesis
  proof (cases "slack_channel cfg")
    case None
    with tok show ?thesis by (simp add: send_slack_def)
  next
    case chan: (Some channel)
    show ?thesis
    proof (cases "token = [] \<or> channel = []")
      case True
      with tok chan show ?thesis by (auto simp: send_slack_def)
    next
      case False
      obtain r w' where p: "post_checked net (SlackPost token channel message) w = (r, w')"
        by (cases "post_checked net (SlackPost token channel message) w")
      note f = post_checked_attempts [OF p]
      show ?thesis
      proof (cases r)
        case None
        with tok chan False p f show ?thesis by (simp add: send_slack_def)
      next
        case (Some e)
        have "is_RequestException e"
          using f Some assms unfolding only_request_failures_def by blast
        with Some tok chan False p f show ?thesis
          by (simp add: send_slack_def)
      qed
    qed
  qed
qed

lemma send_alert_caught:
  assumes "only_request_failures net"
  shows "\<exists>w'. send_alert net message cfg w = Inr w'
           \<and> attempts w' = attempts w @ requests_for cfg message
           \<and> length (printed w') = length (printed w)
                + failures net (attempts w) (requests_for cfg message)"
proof -
  obtain w1 where 1: "send_webhook net message cfg w = Inr w1"
    "attempts w1 = attempts w @ 
               (case webhook cfg of
                  Some url \<Rightarrow> if url = [] then [] else [WebhookPost url message]
                | None \<Rightarrow> [])"
    "length (printed w1) = length (printed w) + failures net (attempts w)
               (case webhook cfg of
                  Some url \<Rightarrow> if url = [] then [] else [WebhookPost url message]
                | None \<Rightarrow> [])"
    using send_webhook_caught [OF assms] by blast
  obtain w2 where 2: "send_slack net message cfg w1 = Inr w2"
    "attempts w2 = attempts w1 @ 
               (case (slack_token cfg, slack_channel cfg) of
                  (Some token, Some channel) \<Rightarrow>
                    if token = [] \<or> channel = [] then [] else [SlackPost token channel message]
                | _ \<Rightarrow> [])"
    "length (printed w2) = length (printed w1) + failures net (attempts w1)
               (case (slack_token cfg, slack_channel cfg) of
                  (Some token, Some channel) \<Rightarrow>
                    if token = [] \<or> channel = [] then [] else [SlackPost token channel message]
                | _ \<Rightarrow> [])"
    using send_slack_caught [OF assms] by blast
  have "send_alert net message cfg w = Inr w2"
    using 1(1) 2(1) by (simp add: send_alert_def)
  moreover have "attempts w2 = attempts w @ requests_for cfg message"
    using 1(2) 2(2) by (simp add: requests_for_def)
  moreover have "length (printed w2) = length (printed w)
                + failures net (attempts w) (requests_for cfg message)"
    unfolding requests_for_def failures_append using 1(2,3) 2(3) by simp
  ultimately show ?thesis by blast
qed

text \<open>An exception outside the \<^verbatim>\<open>RequestException\<close> hierarchy is not caught.\<close>

lemma other_exception_escapes:
  assumes "webhook cfg = Some url" and "url \<noteq> []"
    and "net (attempts w) (WebhookPost url message) = Raises OtherException"
  shows "send_alert net message cfg w
           = Inl (OtherException, w\<lparr>attempts := attempts w @ [WebhookPost url message]\<rparr>)"
  using assms by (simp add: send_alert_def send_webhook_def post_checked_def)

text \<open>
  Claim C7. When every failure of the network is a \<^verbatim>\<open>RequestException\<close> (a network
  error, a timeout, an HTTP error status), the worker never raises: run for \<open>n\<close> rounds,
  it takes the first \<open>n\<close> messages off the queue, and for each of them, in order, makes
  exactly the requests configured, the webhook and then the chat, each once, whatever the
  outcome of the others; every failure adds one warning line and nothing else.
\<close>

theorem deliveries_are_independent:
  assumes "only_request_failures net"
  shows "\<exists>t' w'. process_queue net n (t, w) = Inr (t', w')
           \<and> t' = t\<lparr>queue := drop n (queue t)\<rparr>
           \<and> attempts w' =
               attempts w @ concat (map (requests_for (config t)) (take n (queue t)))
           \<and> length (printed w') =
               length (printed w)
               + failures net (attempts w)
                   (concat (map (requests_for (config t)) (take n (queue t))))"
proof -
  note ok = assms
  show ?thesis
  proof (induction n arbitrary: t w)
    case 0
    show ?case by simp
  next
    case (Suc n)
    show ?case
    proof (cases "queue t")
      case Nil
      with Suc.IH [of t w] show ?thesis by simp
    next
      case (Cons line rest)
      obtain w1 where s: "send_alert net line (config t) w = Inr w1"
        "attempts w1 = attempts w @ requests_for (config t) line"
        "length (printed w1) = length (printed w)
           + failures net (attempts w) (requests_for (config t) line)"
        using send_alert_caught [OF ok] by blast
      from Suc.IH [of "t\<lparr>queue := rest\<rparr>" w1] s Cons show ?thesis
        by (auto simp: failures_append)
    qed
  qed
qed

lemma flaky_net_only_request_failures: "only_request_failures flaky_net"
  by (auto simp: only_request_failures_def flaky_net_def split: request.splits)

theorem deliveries_are_independent_witness:
  "\<exists>t' w'.
     process_queue flaky_net 2
       (\<lparr>path = Path ''app.log'', config = both_cfg, position = 0,
         queue = [str ''ERROR a'', str ''ERROR b'']\<rparr>,
        \<lparr>attempts = [], printed = []\<rparr>) = Inr (t', w')
     \<and> queue t' = []
     \<and> attempts w' =
         [WebhookPost (str ''http://hook'') (str ''ERROR a''),
          SlackPost (str ''tok'') (str ''C1'') (str ''ERROR a''),
          WebhookPost (str ''http://hook'') (str ''ERROR b''),
          SlackPost (str ''tok'') (str ''C1'') (str ''ERROR b'')]
     \<and> length (printed w') = 2"
  using deliveries_are_independent [OF flaky_net_only_request_failures, of 2
      "\<lparr>path = Path ''app.log'', config = both_cfg, position = 0,
         queue = [str ''ERROR a'', str ''ERROR b'']\<rparr>"
      "\<lparr>attempts = [], printed = []\<rparr>"]
  by (auto simp: numeral_2_eq_2 requests_for_def both_cfg_def flaky_net_def str_def)

text \<open>
  Claim C9. With no webhook URL, and the chat token and channel not both set,
  \<^verbatim>\<open>send_alert\<close> makes no request, prints nothing and raises nothing, and the worker
  takes the message off the queue all the same.
\<close>

theorem no_destination_is_noop:
  assumes "\<not> truthy (webhook (config t))"
    and "\<not> (truthy (slack_token (config t)) \<and> truthy (slack_channel (config t)))"
  shows "send_alert net message (config t) w = Inr w
         \<and> (queue t = message # rest \<longrightarrow>
              process_queue net (Suc 0) (t, w) = Inr (t\<lparr>queue := rest\<rparr>, w))"
proof -
  have a: "send_alert net message (config t) w = Inr w"
    using assms
    by (auto simp: send_alert_def send_webhook_def send_slack_def truthy_def
             split: option.splits)
  then show ?thesis by simp
qed

theorem no_destination_is_noop_witness:
  "send_alert flaky_net (str ''ERROR a'')
     \<lparr>pattern = default_pattern, webhook = None, slack_token = Some (str ''tok''),
      slack_channel = None\<rparr> \<lparr>attempts = [], printed = []\<rparr>
   = Inr \<lparr>attempts = [], printed = []\<rparr>"
  using no_destination_is_noop [of
      "\<lparr>path = Path ''app.log'',
        config = \<lparr>pattern = default_pattern, webhook = None, slack_token = Some (str ''tok''),
                  slack_channel = None\<rparr>,
        position = 0, queue = [str ''ERROR a'']\<rparr>"
      flaky_net "str ''ERROR a''" "\<lparr>attempts = [], printed = []\<rparr>" "[]"]
  by (simp add: truthy_def)

subsection \<open>Decoding\<close>


declare utf8_take.simps [simp del]







end
